theory Spec2Isabelle
  imports Complex_Main "HOL-Library.Char_ord" "HOL-Library.List_Lexorder"
begin

section \<open>Data model (notes\_core.py)\<close>

text \<open>
  A Python \<open>str\<close> is modelled as a HOL \<open>string\<close>: a list of characters with code points
  0..255 (read as Latin-1).  A Python \<open>float\<close> is modelled as an exact real number, so the
  arithmetic below is the arithmetic the source writes down, without rounding.
\<close>

record NoteRecord =
  folder :: string
  title :: string
  created :: string
  body_html :: string

record SuggestedFolder =
  name :: string
  confidence :: real
  reason :: string

section \<open>Characters\<close>

text \<open>\<open>str.isspace\<close>, which is also the class \<open>\s\<close> of \<open>re\<close> on \<open>str\<close> patterns.\<close>

definition isspace :: "char \<Rightarrow> bool" where
  "isspace c = (let n = of_char c :: nat in
     (9 \<le> n \<and> n \<le> 13) \<or> (28 \<le> n \<and> n \<le> 32) \<or> n = 133 \<or> n = 160)"

text \<open>\<open>str.lower\<close> on one character: A-Z, and the Latin-1 capitals other than the
  multiplication sign.\<close>

definition lower_char :: "char \<Rightarrow> char" where
  "lower_char c = (let n = of_char c :: nat in
     if (65 \<le> n \<and> n \<le> 90) \<or> (192 \<le> n \<and> n \<le> 222 \<and> n \<noteq> 215)
     then char_of (n + 32) else c)"

definition lower :: "string \<Rightarrow> string" where
  "lower s = map lower_char s"

text \<open>The character class \<open>[a-z0-9]\<close>.\<close>

definition isalnum_lower :: "char \<Rightarrow> bool" where
  "isalnum_lower c = (let n = of_char c :: nat in
     (97 \<le> n \<and> n \<le> 122) \<or> (48 \<le> n \<and> n \<le> 57))"

text \<open>\<open>str.strip()\<close>: whitespace removed at both ends.\<close>

definition strip :: "string \<Rightarrow> string" where
  "strip s = rev (dropWhile isspace (rev (dropWhile isspace s)))"

section \<open>Regular-expression substitution\<close>

text \<open>
  \<open>re.sub(pattern, repl, s)\<close> scans \<open>s\<close> from the left; at each position it tries the
  pattern, and on a match emits \<open>repl\<close> and goes on behind the match, otherwise it emits
  the character and moves one position.  A pattern is given by its matcher: the length of
  the match that starts at the head of the string, if there is one.  No pattern of the
  source matches the empty string.
\<close>

fun re_sub :: "(string \<Rightarrow> nat option) \<Rightarrow> string \<Rightarrow> string \<Rightarrow> string" where
  "re_sub m r [] = []"
| "re_sub m r (c # cs) =
     (case m (c # cs) of
        None \<Rightarrow> c # re_sub m r cs
      | Some k \<Rightarrow> r @ re_sub m r (drop (k - 1) cs))"

definition starts_with :: "string \<Rightarrow> string \<Rightarrow> bool" where
  "starts_with p s = (take (length p) s = p)"

text \<open>Offset of the first occurrence of \<open>p\<close> in \<open>s\<close>.\<close>

fun find_str :: "string \<Rightarrow> string \<Rightarrow> nat option" where
  "find_str p [] = (if p = [] then Some 0 else None)"
| "find_str p (c # cs) =
     (if starts_with p (c # cs) then Some 0
      else map_option Suc (find_str p cs))"

text \<open>
  \<open><style[\s\S]*?>[\s\S]*?</style>\<close> and \<open><script[\s\S]*?>[\s\S]*?</script>\<close>, case
  sensitive: the opening word, lazily up to the first \<open>>\<close>, then lazily up to the first
  closing tag behind it.  If no closing tag follows the first \<open>>\<close>, none follows a later
  one, so backtracking finds nothing else.
\<close>

definition match_block :: "string \<Rightarrow> string \<Rightarrow> string \<Rightarrow> nat option" where
  "match_block opening closing s =
     (if starts_with opening s then
        (case find_str ''>'' (drop (length opening) s) of
           None \<Rightarrow> None
         | Some i \<Rightarrow>
            (case find_str closing (drop (length opening + i + 1) s) of
               None \<Rightarrow> None
             | Some j \<Rightarrow> Some (length opening + i + 1 + j + length closing)))
      else None)"

definition match_style :: "string \<Rightarrow> nat option" where
  "match_style = match_block ''<style'' ''</style>''"

definition match_script :: "string \<Rightarrow> nat option" where
  "match_script = match_block ''<script'' ''</script>''"

text \<open>\<open><br\s*/?>\<close> with \<open>re.IGNORECASE\<close>.\<close>

definition match_br :: "string \<Rightarrow> nat option" where
  "match_br s =
     (case s of
        a # b # c # rest \<Rightarrow>
          if a = CHR ''<'' \<and> (b = CHR ''b'' \<or> b = CHR ''B'') \<and> (c = CHR ''r'' \<or> c = CHR ''R'')
          then (let n = length (takeWhile isspace rest) in
                case dropWhile isspace rest of
                  d # e # _ \<Rightarrow>
                    if d = CHR ''>'' then Some (3 + n + 1)
                    else if d = CHR ''/'' \<and> e = CHR ''>'' then Some (3 + n + 2)
                    else None
                | [d] \<Rightarrow> if d = CHR ''>'' then Some (3 + n + 1) else None
                | [] \<Rightarrow> None)
          else None
      | _ \<Rightarrow> None)"

text \<open>\<open></p>\<close> with \<open>re.IGNORECASE\<close>.\<close>

definition match_p_close :: "string \<Rightarrow> nat option" where
  "match_p_close s =
     (if starts_with ''</p>'' s \<or> starts_with ''</P>'' s then Some 4 else None)"

text \<open>\<open><[^>]+>\<close>: a \<open><\<close>, at least one character other than \<open>>\<close>, up to the first \<open>>\<close>.\<close>

definition match_tag :: "string \<Rightarrow> nat option" where
  "match_tag s =
     (case s of
        a # b # rest \<Rightarrow>
          if a = CHR ''<'' \<and> b \<noteq> CHR ''>'' then
            (case find_str ''>'' rest of
               None \<Rightarrow> None
             | Some i \<Rightarrow> Some (2 + i + 1))
          else None
      | _ \<Rightarrow> None)"

section \<open>Text normalizer and tokenizer\<close>

text \<open>
  \<open>html.unescape\<close> belongs to the Python standard library, not to the repository; it
  decodes character references.  \<open>strip_html\<close> takes it as the parameter \<open>unescape\<close>.
\<close>

definition strip_html :: "(string \<Rightarrow> string) \<Rightarrow> string \<Rightarrow> string" where
  "strip_html unescape html_text =
     (let text = re_sub match_style [] html_text;
          text = re_sub match_script [] text;
          text = re_sub match_br [CHR 0x0A] text;
          text = re_sub match_p_close [CHR 0x0A, CHR 0x0A] text;
          text = re_sub match_tag [] text;
          text = unescape text
      in strip text)"

text \<open>\<open>re.findall(r"[a-z0-9]+", s)\<close>: the maximal runs of the class, left to right.\<close>

fun findall_alnum :: "string \<Rightarrow> string \<Rightarrow> string list" where
  "findall_alnum cur [] = (if cur = [] then [] else [rev cur])"
| "findall_alnum cur (c # cs) =
     (if isalnum_lower c then findall_alnum (c # cur) cs
      else if cur = [] then findall_alnum [] cs
      else rev cur # findall_alnum [] cs)"

definition tokenize :: "string \<Rightarrow> string list" where
  "tokenize text = findall_alnum [] (lower text)"

text \<open>\<open>slugify\<close>: the patterns \<open>[^a-z0-9\-\s]\<close> and \<open>\s+\<close>.\<close>

definition match_not_slug :: "string \<Rightarrow> nat option" where
  "match_not_slug s =
     (case s of
        [] \<Rightarrow> None
      | c # _ \<Rightarrow> if isalnum_lower c \<or> c = CHR ''-'' \<or> isspace c then None else Some 1)"

definition match_spaces :: "string \<Rightarrow> nat option" where
  "match_spaces s =
     (let n = length (takeWhile isspace s) in if n = 0 then None else Some n)"

definition slugify :: "string \<Rightarrow> string" where
  "slugify v =
     (let v = lower (strip v);
          v = re_sub match_not_slug [] v;
          v = re_sub match_spaces ''-'' v
      in if v = [] then ''untitled'' else v)"

section \<open>Folder classifier\<close>

text \<open>The keyword table, in the insertion order of the dictionary literal.\<close>

definition keyword_map :: "(string \<times> string list) list" where
  "keyword_map =
     [(''Work'', [''meeting'', ''client'', ''project'', ''deadline'', ''invoice'',
                  ''deliverable'', ''followup'']),
      (''Personal'', [''family'', ''birthday'', ''travel'', ''recipe'', ''meal'', ''weekend'']),
      (''Finance'', [''budget'', ''tax'', ''expense'', ''invoice'', ''payment'']),
      (''Ideas'', [''idea'', ''brainstorm'', ''concept'', ''draft'']),
      (''Journal'', [''today'', ''gratitude'', ''mood'', ''reflection'', ''diary''])]"

text \<open>\<open>scores[folder] += 1\<close> on a dictionary kept as an association list.\<close>

fun bump :: "string \<Rightarrow> (string \<times> nat) list \<Rightarrow> (string \<times> nat) list" where
  "bump f [] = []"
| "bump f ((g, n) # rest) = (if g = f then (g, n + 1) # rest else (g, n) # bump f rest)"

text \<open>The inner loop, over the folders of the table, for one token.\<close>

fun score_token :: "string \<Rightarrow> (string \<times> string list) list \<Rightarrow> (string \<times> nat) list
    \<Rightarrow> (string \<times> nat) list" where
  "score_token token [] scores = scores"
| "score_token token ((f, keywords) # rest) scores =
     score_token token rest (if token \<in> set keywords then bump f scores else scores)"

text \<open>The outer loop, over the tokens.\<close>

fun score_tokens :: "string list \<Rightarrow> (string \<times> nat) list \<Rightarrow> (string \<times> nat) list" where
  "score_tokens [] scores = scores"
| "score_tokens (token # rest) scores = score_tokens rest (score_token token keyword_map scores)"

text \<open>
  \<open>max(scores.items(), key=lambda item: item[1])\<close>: the items are visited in order and an
  item replaces the best one only when its key is strictly larger.  On an empty sequence
  \<open>max\<close> raises \<open>ValueError\<close>; \<open>scores\<close> has one item for each folder of the table.
\<close>

fun max_from :: "string \<times> nat \<Rightarrow> (string \<times> nat) list \<Rightarrow> string \<times> nat" where
  "max_from best [] = best"
| "max_from best (x # xs) = max_from (if snd best < snd x then x else best) xs"

fun max_item :: "(string \<times> nat) list \<Rightarrow> string \<times> nat" where
  "max_item (x # xs) = max_from x xs"

text \<open>\<open>str(n)\<close> for a natural number.\<close>

definition digit_char :: "nat \<Rightarrow> char" where
  "digit_char d = char_of (48 + d)"

fun str_nat :: "nat \<Rightarrow> string" where
  "str_nat n = (if n < 10 then [digit_char n] else str_nat (n div 10) @ [digit_char (n mod 10)])"

declare str_nat.simps [simp del]

definition suggest_folder ::
    "(string \<Rightarrow> string) \<Rightarrow> NoteRecord \<Rightarrow> string list \<Rightarrow> SuggestedFolder" where
  "suggest_folder unescape note known_folders =
     (let content = title note @ '' '' @ strip_html unescape (body_html note);
          tokens = tokenize content
      in if tokens = [] then
           \<lparr>name = (if folder note \<noteq> [] then folder note else ''Uncategorized''),
            confidence = 2 / 10, reason = ''Empty note''\<rparr>
         else
           (let scores = score_tokens tokens (map (\<lambda>(f, _). (f, 0)) keyword_map);
                (best_folder, best_score) = max_item scores;
                confidence =
                  (if best_score \<noteq> 0
                   then min 1 (real best_score / max 3 (real (length tokens) / 4))
                   else 35 / 100)
            in if best_score = 0 then
                 (let fallback = (if folder note \<noteq> [] then folder note else ''Uncategorized'');
                      reason = ''No strong keyword match; keeping original folder''
                  in if fallback \<in> set known_folders
                     then \<lparr>name = fallback, confidence = confidence, reason = reason\<rparr>
                     else \<lparr>name = ''Uncategorized'', confidence = confidence, reason = reason\<rparr>)
               else
                 (let reason = ''Matched '' @ str_nat best_score @ '' keyword(s) for '' @ best_folder;
                      reason = (if best_folder \<notin> set known_folders \<and> folder note \<noteq> []
                                then reason @ ''; original folder was '' @ folder note
                                else reason)
                  in \<lparr>name = best_folder, confidence = confidence, reason = reason\<rparr>)))"

section \<open>Renderer\<close>

text \<open>
  \<open>html.escape(s)\<close> of the standard library, with its default \<open>quote=True\<close>: five
  \<open>str.replace\<close> calls, the ampersand first.
\<close>

definition replace_char :: "char \<Rightarrow> string \<Rightarrow> string \<Rightarrow> string" where
  "replace_char c r s = concat (map (\<lambda>x. if x = c then r else [x]) s)"

definition html_escape :: "string \<Rightarrow> string" where
  "html_escape s =
     (let s = replace_char CHR ''&'' ''&amp;'' s;
          s = replace_char CHR ''<'' ''&lt;'' s;
          s = replace_char CHR ''>'' ''&gt;'' s;
          s = replace_char CHR 0x22 ''&quot;'' s;
          s = replace_char CHR 0x27 ''&#x27;'' s
      in s)"

definition format_note :: "(string \<Rightarrow> string) \<Rightarrow> NoteRecord \<Rightarrow> string \<Rightarrow> string" where
  "format_note unescape record output_format =
     (let header = ''# '' @ title record @ [CHR 0x0A, CHR 0x0A];
          metadata = ''Folder: '' @ folder record @ [CHR 0x0A] @
                     ''Created: '' @ created record @ [CHR 0x0A, CHR 0x0A]
      in if output_format = ''html'' then
           ''<h1>'' @ html_escape (title record) @ ''</h1>'' @ [CHR 0x0A] @
           ''<p><strong>Folder:</strong> '' @ html_escape (folder record) @ ''<br/>'' @
           ''<strong>Created:</strong> '' @ html_escape (created record) @ ''</p>'' @ [CHR 0x0A] @
           body_html record @ [CHR 0x0A]
         else if output_format = ''text'' then
           title record @ [CHR 0x0A] @ folder record @ [CHR 0x0A] @ created record @
           [CHR 0x0A, CHR 0x0A] @ strip_html unescape (body_html record) @ [CHR 0x0A]
         else header @ metadata @ strip_html unescape (body_html record) @ [CHR 0x0A])"

section \<open>Exporter\<close>

text \<open>
  A \<open>Path\<close> is the list of its components; \<open>p / c\<close> appends the component \<open>c\<close>.  The file
  system is the set of directories and the content of each file.  The calls into the
  operating system are taken to succeed.
\<close>

type_synonym path = "string list"

record filesystem =
  dirs :: "path set"
  files :: "path \<rightharpoonup> string"

text \<open>\<open>Path.mkdir(parents=True, exist_ok=True)\<close>.\<close>

definition mkdir :: "path \<Rightarrow> filesystem \<Rightarrow> filesystem" where
  "mkdir p fs = fs\<lparr>dirs := dirs fs \<union> set (map (\<lambda>k. take k p) [0..<Suc (length p)])\<rparr>"

text \<open>\<open>Path.write_text\<close>.\<close>

definition write_text :: "path \<Rightarrow> string \<Rightarrow> filesystem \<Rightarrow> filesystem" where
  "write_text p content fs = fs\<lparr>files := (files fs)(p \<mapsto> content)\<rparr>"

text \<open>
  \<open>folder_overrides.get(record.title, record.folder) if folder_overrides else record.folder\<close>:
  the overrides are \<open>None\<close> or a dictionary, given by its items.
\<close>

definition folder_name_of :: "(string \<times> string) list option \<Rightarrow> NoteRecord \<Rightarrow> string" where
  "folder_name_of folder_overrides record =
     (case folder_overrides of
        None \<Rightarrow> folder record
      | Some ov \<Rightarrow>
          if ov \<noteq> [] then (case map_of ov (title record) of Some f \<Rightarrow> f | None \<Rightarrow> folder record)
          else folder record)"

text \<open>The body of the loop of \<open>export_notes\<close>, for one note.\<close>

definition export_one ::
    "(string \<Rightarrow> string) \<Rightarrow> string \<Rightarrow> path \<Rightarrow> string \<Rightarrow> (string \<times> string) list option
     \<Rightarrow> NoteRecord \<Rightarrow> filesystem \<Rightarrow> path \<times> filesystem" where
  "export_one unescape timestamp output_dir output_format folder_overrides record fs =
     (let folder_name = folder_name_of folder_overrides record;
          folder_dir = output_dir @
            [slugify (if folder_name \<noteq> [] then folder_name else ''Uncategorized'')];
          fs = mkdir folder_dir fs;
          filename = slugify (title record) @ ''-'' @ timestamp @ ''.'' @ output_format;
          output_path = folder_dir @ [filename];
          content = format_note unescape record output_format;
          fs = write_text output_path content fs
      in (output_path, fs))"

fun export_loop ::
    "(string \<Rightarrow> string) \<Rightarrow> string \<Rightarrow> path \<Rightarrow> string \<Rightarrow> (string \<times> string) list option
     \<Rightarrow> NoteRecord list \<Rightarrow> path list \<Rightarrow> filesystem \<Rightarrow> path list \<times> filesystem" where
  "export_loop unescape timestamp output_dir output_format folder_overrides [] created_paths fs =
     (created_paths, fs)"
| "export_loop unescape timestamp output_dir output_format folder_overrides (record # rest)
       created_paths fs =
     (let (output_path, fs) =
            export_one unescape timestamp output_dir output_format folder_overrides record fs
      in export_loop unescape timestamp output_dir output_format folder_overrides rest
           (created_paths @ [output_path]) fs)"

text \<open>
  \<open>export_notes\<close>.  The argument \<open>timestamp\<close> is the value of
  \<open>dt.datetime.now().strftime("%Y%m%d-%H%M%S")\<close>, which the source reads once, before the loop.
\<close>

definition export_notes ::
    "(string \<Rightarrow> string) \<Rightarrow> string \<Rightarrow> NoteRecord list \<Rightarrow> path \<Rightarrow> string
     \<Rightarrow> (string \<times> string) list option \<Rightarrow> filesystem \<Rightarrow> path list \<times> filesystem" where
  "export_notes unescape timestamp notes output_dir output_format folder_overrides fs =
     export_loop unescape timestamp output_dir output_format folder_overrides notes []
       (mkdir output_dir fs)"

section \<open>Aggregator\<close>

record Bucket =
  bucket_folder :: string
  count :: nat
  avg_confidence :: real

record Summary =
  total :: nat
  buckets :: "Bucket list"

text \<open>\<open>counts.setdefault(name, []).append(confidence)\<close>, the dictionary in insertion order.\<close>

fun setdefault_append ::
    "string \<Rightarrow> real \<Rightarrow> (string \<times> real list) list \<Rightarrow> (string \<times> real list) list" where
  "setdefault_append k v [] = [(k, [v])]"
| "setdefault_append k v ((k', vs) # rest) =
     (if k' = k then (k', vs @ [v]) # rest else (k', vs) # setdefault_append k v rest)"

text \<open>\<open>round(x, 2)\<close>: to the nearest hundredth, a tie to the even one.\<close>

definition round2 :: "real \<Rightarrow> real" where
  "round2 x =
     (let y = x * 100; f = \<lfloor>y\<rfloor>; d = y - of_int f
      in of_int (if d < 1 / 2 then f else if 1 / 2 < d then f + 1
                 else if even f then f else f + 1) / 100)"

fun count_loop ::
    "(string \<Rightarrow> string) \<Rightarrow> string list \<Rightarrow> NoteRecord list \<Rightarrow> (string \<times> real list) list
     \<Rightarrow> (string \<times> real list) list" where
  "count_loop unescape known_folders [] counts = counts"
| "count_loop unescape known_folders (note # rest) counts =
     (let suggestion = suggest_folder unescape note known_folders
      in count_loop unescape known_folders rest
           (setdefault_append (name suggestion) (confidence suggestion) counts))"

definition make_bucket :: "string \<times> real list \<Rightarrow> Bucket" where
  "make_bucket item =
     (case item of (f, confidences) \<Rightarrow>
        (let average = sum_list confidences / real (length confidences)
         in \<lparr>bucket_folder = f, count = length confidences, avg_confidence = round2 average\<rparr>))"

definition assess_suggestions :: "(string \<Rightarrow> string) \<Rightarrow> NoteRecord list \<Rightarrow> Summary" where
  "assess_suggestions unescape notes =
     (let known_folders = sort (remdups (filter (\<lambda>f. f \<noteq> []) (map folder notes)));
          counts = count_loop unescape known_folders notes [];
          buckets = map make_bucket (sort_key fst counts)
      in \<lparr>total = length notes, buckets = buckets\<rparr>)"

section \<open>A decoder of character references\<close>

text \<open>
  For evaluation on concrete notes: the references that \<open>html.escape\<close> writes, which
  \<open>html.unescape\<close> decodes in this way (the library function decodes many more; all
  other text is left as it is here).
\<close>

fun unescape_basic :: "string \<Rightarrow> string" where
  "unescape_basic [] = []"
| "unescape_basic (c # cs) =
     (if starts_with ''&amp;'' (c # cs) then CHR ''&'' # unescape_basic (drop 4 cs)
      else if starts_with ''&lt;'' (c # cs) then CHR ''<'' # unescape_basic (drop 3 cs)
      else if starts_with ''&gt;'' (c # cs) then CHR ''>'' # unescape_basic (drop 3 cs)
      else if starts_with ''&quot;'' (c # cs) then CHR 0x22 # unescape_basic (drop 5 cs)
      else if starts_with ''&#x27;'' (c # cs) then CHR 0x27 # unescape_basic (drop 5 cs)
      else c # unescape_basic cs)"

section \<open>Notions of the specification\<close>

text \<open>The number of tokens, with repetition, that belong to a keyword set.\<close>

definition hits :: "string list \<Rightarrow> string list \<Rightarrow> nat" where
  "hits keywords tokens = length (filter (\<lambda>t. t \<in> set keywords) tokens)"

text \<open>The tokens of the title and the normalized body of a note.\<close>

definition note_tokens :: "(string \<Rightarrow> string) \<Rightarrow> NoteRecord \<Rightarrow> string list" where
  "note_tokens unescape note =
     tokenize (title note @ '' '' @ strip_html unescape (body_html note))"

text \<open>
  The effective folder of a note in an export: the override for its title if there is one,
  else its own folder; \<open>Uncategorized\<close> if that is empty.
\<close>

definition effective_folder :: "(string \<times> string) list option \<Rightarrow> NoteRecord \<Rightarrow> string" where
  "effective_folder overrides note =
     (let f = (case overrides of
                 None \<Rightarrow> folder note
               | Some ov \<Rightarrow> (case map_of ov (title note) of Some g \<Rightarrow> g | None \<Rightarrow> folder note))
      in if f = [] then ''Uncategorized'' else f)"

definition export_key :: "(string \<times> string) list option \<Rightarrow> NoteRecord \<Rightarrow> string \<times> string" where
  "export_key overrides note = (effective_folder overrides note, title note)"

definition slug_key :: "(string \<times> string) list option \<Rightarrow> NoteRecord \<Rightarrow> string \<times> string" where
  "slug_key overrides note = (slugify (effective_folder overrides note), slugify (title note))"

text \<open>The extension of a file name: what follows its last dot.\<close>

definition file_extension :: "string \<Rightarrow> string" where
  "file_extension s = rev (takeWhile (\<lambda>c. c \<noteq> CHR ''.'') (rev s))"

definition empty_fs :: filesystem where
  "empty_fs = \<lparr>dirs = {}, files = Map.empty\<rparr>"

text \<open>HTML escaping of one character.\<close>

definition escape_char :: "char \<Rightarrow> string" where
  "escape_char c =
     (if c = CHR ''&'' then ''&amp;''
      else if c = CHR ''<'' then ''&lt;''
      else if c = CHR ''>'' then ''&gt;''
      else if c = CHR 0x22 then ''&quot;''
      else if c = CHR 0x27 then ''&#x27;''
      else [c])"

text \<open>A string contains a markup tag if the pattern \<open><[^>]+>\<close> matches somewhere in it.\<close>

fun has_tag :: "string \<Rightarrow> bool" where
  "has_tag [] = False"
| "has_tag (c # cs) = (match_tag (c # cs) \<noteq> None \<or> has_tag cs)"

section \<open>Sample notes\<close>

text \<open>The first two notes of \<open>SAMPLE_NOTES\<close>, the bodies without the indentation.\<close>

definition sample_note_1 :: NoteRecord where
  "sample_note_1 =
     \<lparr>folder = ''Inbox'', title = ''Client meeting follow-up'', created = ''2024-11-02'',
      body_html = ''<p>Send project timeline and updated budget to client.</p><p>Schedule next meeting for Thursday.</p>''\<rparr>"

definition sample_note_2 :: NoteRecord where
  "sample_note_2 =
     \<lparr>folder = ''Personal'', title = ''Weekend meal prep ideas'', created = ''2024-11-01'',
      body_html = ''<ul><li>Chicken bowls</li><li>Vegetarian chili</li></ul>''\<rparr>"

text \<open>A note without a keyword, and a note without a token.\<close>

definition plain_note :: NoteRecord where
  "plain_note = \<lparr>folder = ''Inbox'', title = ''Shopping'', created = ''2024-11-03'',
                  body_html = ''<p>Milk and eggs</p>''\<rparr>"

definition blank_note :: NoteRecord where
  "blank_note = \<lparr>folder = [], title = ''...'', created = ''2024-11-03'',
                  body_html = ''<p> </p>''\<rparr>"

text \<open>Two notes of one folder whose titles differ in punctuation only.\<close>

definition collide_notes :: "NoteRecord list" where
  "collide_notes =
     [\<lparr>folder = ''A'', title = ''Hello'', created = [], body_html = ''one''\<rparr>,
      \<lparr>folder = ''A'', title = ''Hello!'', created = [], body_html = ''two''\<rparr>]"

text \<open>A note whose title needs escaping.\<close>

definition amp_note :: NoteRecord where
  "amp_note = \<lparr>folder = ''Inbox'', title = ''R&D <1>'', created = ''2024-11-03'',
                body_html = ''<p>a &amp; b</p>''\<rparr>"

section \<open>The scoring loop\<close>

lemma bump_distinct:
  "distinct (map fst sc) \<Longrightarrow> bump f sc = map (\<lambda>(g, n). (g, if g = f then n + 1 else n)) sc"
proof (induction sc)
  case Nil
  then show ?case by simp
next
  case (Cons p sc)
  obtain g n where p: "p = (g, n)" by (cases p)
  show ?case
  proof (cases "g = f")
    case True
    with Cons.prems p have "f \<notin> fst ` set sc" by auto
    then have "map (\<lambda>(g, n). (g, if g = f then n + 1 else n)) sc = sc"
      by (induction sc) auto
    with True p show ?thesis by simp
  next
    case False
    with Cons p show ?thesis by simp
  qed
qed

lemma score_token_map:
  "distinct (map fst sc) \<Longrightarrow>
   score_token t tb sc =
     map (\<lambda>(g, n). (g, n + length (filter (\<lambda>(f, kws). f = g \<and> t \<in> set kws) tb))) sc"
proof (induction tb arbitrary: sc)
  case Nil
  then show ?case by (simp add: case_prod_unfold)
next
  case (Cons p tb)
  obtain f kws where p: "p = (f, kws)" by (cases p)
  show ?case
  proof (cases "t \<in> set kws")
    case True
    have d: "distinct (map fst (bump f sc))"
      using Cons.prems by (simp add: bump_distinct case_prod_unfold comp_def)
    show ?thesis
      using True p Cons.IH [OF d] Cons.prems
      by (simp add: bump_distinct case_prod_unfold comp_def)
  next
    case False
    with p Cons show ?thesis by (simp add: case_prod_unfold)
  qed
qed

lemma score_tokens_map:
  "distinct (map fst sc) \<Longrightarrow>
   score_tokens ts sc =
     map (\<lambda>(g, n). (g, n + (\<Sum>t\<leftarrow>ts. length (filter (\<lambda>(f, kws). f = g \<and> t \<in> set kws) keyword_map)))) sc"
proof (induction ts arbitrary: sc)
  case Nil
  then show ?case by (simp add: case_prod_unfold)
next
  case (Cons t ts)
  have d: "distinct (map fst (score_token t keyword_map sc))"
    using Cons.prems by (simp add: score_token_map case_prod_unfold comp_def)
  show ?case
    using Cons.IH [OF d] Cons.prems
    by (simp add: score_token_map case_prod_unfold comp_def)
qed

lemma keyword_map_distinct: "distinct (map fst keyword_map)"
  by (simp add: keyword_map_def)

lemma filter_key:
  "distinct (map fst tb) \<Longrightarrow> (f, kws) \<in> set tb \<Longrightarrow>
   length (filter (\<lambda>(f', kws'). f' = f \<and> P kws') tb) = (if P kws then 1 else 0)"
proof (induction tb)
  case Nil
  then show ?case by simp
next
  case (Cons p tb)
  obtain g k where p: "p = (g, k)" by (cases p)
  show ?case
  proof (cases "g = f")
    case True
    with Cons.prems p have notin: "f \<notin> fst ` set tb" by auto
    then have "filter (\<lambda>(f', kws'). f' = f \<and> P kws') tb = []"
      by (force simp: filter_empty_conv)
    moreover from Cons.prems p True notin have "k = kws" by force
    ultimately show ?thesis using p True by simp
  next
    case False
    with Cons p show ?thesis by auto
  qed
qed

lemma sum_hits:
  "distinct (map fst tb) \<Longrightarrow> (f, kws) \<in> set tb \<Longrightarrow>
   (\<Sum>t\<leftarrow>ts. length (filter (\<lambda>(f', kws'). f' = f \<and> t \<in> set kws') tb)) = hits kws ts"
  by (induction ts) (simp_all add: hits_def filter_key)

lemma scores_eq:
  "score_tokens ts (map (\<lambda>(f, _). (f, 0)) keyword_map) =
   map (\<lambda>(f, kws). (f, hits kws ts)) keyword_map"
proof -
  have d: "distinct (map fst (map (\<lambda>(f, _). (f, 0::nat)) keyword_map))"
    using keyword_map_distinct by (simp add: comp_def case_prod_unfold)
  show ?thesis
    unfolding score_tokens_map [OF d]
    by (auto simp: sum_hits [OF keyword_map_distinct])
qed

lemma max_from_keep:
  "snd b = m \<Longrightarrow> \<forall>x\<in>set xs. snd x \<le> m \<Longrightarrow> max_from b xs = b"
  by (induction xs) auto

lemma max_from_first:
  "snd b < m \<Longrightarrow> \<forall>x\<in>set xs. snd x \<le> m \<Longrightarrow> find (\<lambda>x. snd x = m) xs = Some r \<Longrightarrow>
   max_from b xs = r"
proof (induction xs arbitrary: b)
  case Nil
  then show ?case by simp
next
  case (Cons x xs)
  show ?case
  proof (cases "snd x = m")
    case True
    with Cons.prems have "r = x" by simp
    moreover have "max_from x xs = x"
      using True Cons.prems(2) by (intro max_from_keep) auto
    ultimately show ?thesis using True Cons.prems(1) by simp
  next
    case False
    with Cons.prems have lt: "snd x < m" and f: "find (\<lambda>x. snd x = m) xs = Some r"
      and le: "\<forall>x\<in>set xs. snd x \<le> m" by auto
    have "snd (if snd b < snd x then x else b) < m"
      using lt Cons.prems(1) by simp
    from Cons.IH [OF this le f] show ?thesis by simp
  qed
qed

lemma max_item_first:
  "\<forall>x\<in>set xs. snd x \<le> m \<Longrightarrow> find (\<lambda>x. snd x = m) xs = Some r \<Longrightarrow> max_item xs = r"
proof (cases xs)
  case Nil
  assume "find (\<lambda>x. snd x = m) xs = Some r"
  with Nil show ?thesis by simp
next
  case (Cons x xs')
  assume le: "\<forall>x\<in>set xs. snd x \<le> m" and f: "find (\<lambda>x. snd x = m) xs = Some r"
  show ?thesis
  proof (cases "snd x = m")
    case True
    with f Cons have "r = x" by simp
    moreover have "max_from x xs' = x"
      using True le Cons by (intro max_from_keep) auto
    ultimately show ?thesis using Cons by simp
  next
    case False
    with le Cons have "snd x < m" by (simp add: le_neq_implies_less)
    moreover from le Cons have "\<forall>x\<in>set xs'. snd x \<le> m" by simp
    moreover from f Cons False have "find (\<lambda>x. snd x = m) xs' = Some r" by simp
    ultimately have "max_from x xs' = r" by (rule max_from_first)
    with Cons show ?thesis by simp
  qed
qed

lemma find_map_list:
  "find P (map f xs) = map_option f (find (\<lambda>x. P (f x)) xs)"
  by (induction xs) auto

lemma best_item:
  assumes "\<forall>(f, k)\<in>set keyword_map. hits k ts \<le> best_score"
      and "find (\<lambda>(f, k). hits k ts = best_score) keyword_map = Some (best_folder, kws)"
  shows "max_item (map (\<lambda>(f, kws). (f, hits kws ts)) keyword_map) = (best_folder, best_score)"
proof -
  let ?sc = "map (\<lambda>(f, kws). (f, hits kws ts)) keyword_map"
  have le: "\<forall>x\<in>set ?sc. snd x \<le> best_score"
    using assms(1) by auto
  have "hits kws ts = best_score"
    using assms(2) by (auto dest: find_Some_iff [THEN iffD1])
  then have "find (\<lambda>x. snd x = best_score) ?sc = Some (best_folder, best_score)"
    using assms(2) by (simp add: find_map_list case_prod_unfold)
  with le show ?thesis by (rule max_item_first)
qed

lemma max_from_mem: "max_from b xs \<in> set (b # xs)"
  by (induction xs arbitrary: b) auto

lemma max_item_mem: "xs \<noteq> [] \<Longrightarrow> max_item xs \<in> set xs"
  using max_from_mem by (cases xs) auto

lemma scores_nonempty: "score_tokens ts (map (\<lambda>(f, _). (f, 0)) keyword_map) \<noteq> []"
  unfolding scores_eq by (simp add: keyword_map_def)

section \<open>Properties of the classifier\<close>

lemma hits_pos_nonempty: "0 < hits k ts \<Longrightarrow> ts \<noteq> []"
  by (auto simp: hits_def)

text \<open>
  Claim C1.  Let \<open>best_score\<close> be the largest number of keyword hits of a folder of the table
  on the tokens of the note, and \<open>best_folder\<close> the first folder of the table, in its
  insertion order (Work, Personal, Finance, Ideas, Journal), that reaches it.  If
  \<open>best_score\<close> is positive, \<open>suggest_folder\<close> returns \<open>best_folder\<close> with the confidence
  \<open>min(1.0, best_score / max(3, tokenCount / 4))\<close> and the reason
  "Matched \<open>best_score\<close> keyword(s) for \<open>best_folder\<close>", to which
  "; original folder was \<open>folder\<close>" is appended exactly when \<open>best_folder\<close> is not a known
  folder and the folder of the note is not empty.
\<close>

theorem suggest_folder_positive_score:
  assumes ub: "\<forall>(f, k)\<in>set keyword_map. hits k (note_tokens u n) \<le> best_score"
      and first: "find (\<lambda>(f, k). hits k (note_tokens u n) = best_score) keyword_map
                    = Some (best_folder, kws)"
      and pos: "0 < best_score"
  shows "suggest_folder u n known_folders =
           \<lparr>name = best_folder,
            confidence = min 1 (real best_score / max 3 (real (length (note_tokens u n)) / 4)),
            reason = ''Matched '' @ str_nat best_score @ '' keyword(s) for '' @ best_folder @
                     (if best_folder \<notin> set known_folders \<and> folder n \<noteq> []
                      then ''; original folder was '' @ folder n else [])\<rparr>"
proof -
  let ?ts = "note_tokens u n"
  have "hits kws ?ts = best_score"
    using first by (auto dest: find_Some_iff [THEN iffD1])
  with pos have ne: "?ts \<noteq> []" by (auto dest: hits_pos_nonempty)
  have best: "max_item (score_tokens ?ts (map (\<lambda>(f, _). (f, 0)) keyword_map))
                = (best_folder, best_score)"
    unfolding scores_eq using ub first by (rule best_item)
  show ?thesis
    using ne best pos unfolding suggest_folder_def note_tokens_def
    by (simp add: Let_def)
qed

text \<open>
  Claim C3.  If the note has tokens and no folder of the table has a keyword hit,
  \<open>suggest_folder\<close> returns the confidence 0.35 and the reason
  "No strong keyword match; keeping original folder"; the name is the folder of the note when
  that is not empty and is a known folder, and "Uncategorized" otherwise.
\<close>

theorem suggest_folder_zero_score:
  assumes ne: "note_tokens u n \<noteq> []"
      and zero: "\<forall>(f, k)\<in>set keyword_map. hits k (note_tokens u n) = 0"
  shows "suggest_folder u n known_folders =
           \<lparr>name = (if folder n \<noteq> [] \<and> folder n \<in> set known_folders then folder n
                    else ''Uncategorized''),
            confidence = 0.35,
            reason = ''No strong keyword match; keeping original folder''\<rparr>"
proof -
  let ?ts = "note_tokens u n"
  let ?sc = "score_tokens ?ts (map (\<lambda>(f, _). (f, 0)) keyword_map)"
  have "max_item ?sc \<in> set ?sc"
    by (rule max_item_mem) (rule scores_nonempty)
  then have "snd (max_item ?sc) = 0"
    unfolding scores_eq using zero by auto
  then obtain bf where best: "max_item ?sc = (bf, 0)"
    by (cases "max_item ?sc") auto
  show ?thesis
    using ne best unfolding suggest_folder_def note_tokens_def
    by (simp add: Let_def)
qed

text \<open>
  Claim C4.  If the title and the normalized body of the note have no token,
  \<open>suggest_folder\<close> returns the folder of the note, or "Uncategorized" if that is empty, with
  the confidence 0.2 and the reason "Empty note".
\<close>

theorem suggest_folder_empty_note:
  assumes "note_tokens u n = []"
  shows "suggest_folder u n known_folders =
           \<lparr>name = (if folder n \<noteq> [] then folder n else ''Uncategorized''),
            confidence = 0.2, reason = ''Empty note''\<rparr>"
  using assms unfolding suggest_folder_def note_tokens_def by (simp add: Let_def)

text \<open>
  Claim C2.  For every note and all known folders, the confidence that \<open>suggest_folder\<close>
  returns lies between 0 and 1.
\<close>

theorem suggest_folder_confidence_range:
  "0 \<le> confidence (suggest_folder u n known_folders) \<and>
   confidence (suggest_folder u n known_folders) \<le> 1"
  by (simp add: suggest_folder_def Let_def case_prod_unfold)

section \<open>Properties of the exporter\<close>

lemma folder_name_of_effective:
  "(if folder_name_of ov n \<noteq> [] then folder_name_of ov n else ''Uncategorized'') = effective_folder ov n"
  by (cases ov) (auto simp: folder_name_of_def effective_folder_def Let_def split: option.splits)

lemma export_one_path:
  "fst (export_one u ts out fmt ov n fs) =
     out @ [slugify (effective_folder ov n), slugify (title n) @ ''-'' @ ts @ ''.'' @ fmt]"
  by (simp add: export_one_def Let_def folder_name_of_effective)

lemma export_one_files:
  "files (snd (export_one u ts out fmt ov n fs)) =
     (files fs)(fst (export_one u ts out fmt ov n fs) \<mapsto> format_note u n fmt)"
  by (simp add: export_one_def Let_def write_text_def mkdir_def)

lemma export_loop_paths:
  "fst (export_loop u ts out fmt ov ns acc fs) =
     acc @ map (\<lambda>n. fst (export_one u ts out fmt ov n fs0)) ns"
proof (induction ns arbitrary: acc fs)
  case Nil
  then show ?case by simp
next
  case (Cons n ns)
  have "fst (export_one u ts out fmt ov n fs) = fst (export_one u ts out fmt ov n fs0)"
    by (simp add: export_one_path)
  then show ?case
    using Cons.IH by (simp add: case_prod_unfold)
qed

lemma export_notes_paths:
  "fst (export_notes u ts ns out fmt ov fs) =
     map (\<lambda>n. fst (export_one u ts out fmt ov n fs0)) ns"
  using export_loop_paths [of u ts out fmt ov ns "[]"] by (simp add: export_notes_def)

text \<open>The files after the loop: those before it, overwritten in order.\<close>

lemma export_loop_files:
  "files (snd (export_loop u ts out fmt ov ns acc fs)) =
     fold (\<lambda>n m. m(fst (export_one u ts out fmt ov n fs0) \<mapsto> format_note u n fmt)) ns (files fs)"
proof (induction ns arbitrary: acc fs)
  case Nil
  then show ?case by simp
next
  case (Cons n ns)
  have p: "fst (export_one u ts out fmt ov n fs) = fst (export_one u ts out fmt ov n fs0)"
    by (simp add: export_one_path)
  show ?case
    using Cons.IH [of "acc @ [fst (export_one u ts out fmt ov n fs)]" "snd (export_one u ts out fmt ov n fs)"]
    by (simp add: case_prod_unfold export_one_files p)
qed

lemma fold_upd_notin:
  "p \<notin> set (map k ns) \<Longrightarrow> fold (\<lambda>n m. m(k n \<mapsto> c n)) ns m0 p = m0 p"
  by (induction ns arbitrary: m0) auto

lemma fold_upd_distinct:
  "distinct (map k ns) \<Longrightarrow> i < length ns \<Longrightarrow>
   fold (\<lambda>n m. m(k n \<mapsto> c n)) ns m0 (k (ns ! i)) = Some (c (ns ! i))"
proof (induction ns arbitrary: m0 i)
  case Nil
  then show ?case by simp
next
  case (Cons n ns)
  show ?case
  proof (cases i)
    case 0
    with Cons.prems show ?thesis by (simp del: fun_upd_apply add: fold_upd_notin fun_upd_same)
  next
    case (Suc j)
    with Cons show ?thesis by simp
  qed
qed

lemma paths_distinct:
  assumes "distinct (map (slug_key ov) ns)"
  shows "distinct (map (\<lambda>n. fst (export_one u ts out fmt ov n fs0)) ns)"
proof -
  have "inj_on (\<lambda>n. fst (export_one u ts out fmt ov n fs0)) (set ns)"
  proof (rule inj_onI)
    fix a b assume a: "a \<in> set ns" and b: "b \<in> set ns"
      and eq: "fst (export_one u ts out fmt ov a fs0) = fst (export_one u ts out fmt ov b fs0)"
    from eq have "slug_key ov a = slug_key ov b"
      by (simp add: export_one_path slug_key_def)
    with assms a b show "a = b"
      by (meson distinct_map inj_onD)
  qed
  moreover from assms have "distinct ns" by (simp add: distinct_map)
  ultimately show ?thesis by (simp add: distinct_map)
qed

lemma export_notes_files:
  "files (snd (export_notes u ts ns out fmt ov fs)) =
     fold (\<lambda>n m. m(fst (export_one u ts out fmt ov n fs0) \<mapsto> format_note u n fmt)) ns (files fs)"
  using export_loop_files [of u ts out fmt ov ns "[]" "mkdir out fs" fs0]
  by (simp add: export_notes_def mkdir_def)

text \<open>
  Claim C7, as amended.  \<open>export_notes\<close> returns as many paths as there are notes, the
  \<open>i\<close>-th path being the one written for the \<open>i\<close>-th note.  When the pairs
  (slug of the effective folder, slug of the title) of the notes are pairwise distinct, the
  paths are pairwise distinct, so that as many files are written as there are notes, and each
  file holds the rendering of its note.
\<close>

theorem export_notes_one_path_per_note:
  "length (fst (export_notes u ts ns out fmt ov fs)) = length ns \<and>
   (\<forall>i<length ns.
      fst (export_notes u ts ns out fmt ov fs) ! i = fst (export_one u ts out fmt ov (ns ! i) fs)) \<and>
   (distinct (map (slug_key ov) ns) \<longrightarrow>
      distinct (fst (export_notes u ts ns out fmt ov fs)) \<and>
      card (set (fst (export_notes u ts ns out fmt ov fs))) = length ns \<and>
      (\<forall>i<length ns.
         files (snd (export_notes u ts ns out fmt ov fs))
           (fst (export_notes u ts ns out fmt ov fs) ! i) = Some (format_note u (ns ! i) fmt)))"
proof -
  let ?k = "\<lambda>n. fst (export_one u ts out fmt ov n fs)"
  have paths: "fst (export_notes u ts ns out fmt ov fs) = map ?k ns"
    by (rule export_notes_paths)
  have files: "files (snd (export_notes u ts ns out fmt ov fs)) =
      fold (\<lambda>n m. m(?k n \<mapsto> format_note u n fmt)) ns (files fs)"
    by (rule export_notes_files)
  have "distinct (map ?k ns) \<and> card (set (map ?k ns)) = length ns \<and>
        (\<forall>i<length ns. fold (\<lambda>n m. m(?k n \<mapsto> format_note u n fmt)) ns (files fs) (map ?k ns ! i)
           = Some (format_note u (ns ! i) fmt))"
    if d: "distinct (map (slug_key ov) ns)"
  proof -
    have dk: "distinct (map ?k ns)" using d by (rule paths_distinct)
    then have "card (set (map ?k ns)) = length ns"
      using distinct_card [of "map ?k ns"] by simp
    moreover have "fold (\<lambda>n m. m(?k n \<mapsto> format_note u n fmt)) ns (files fs) (map ?k ns ! i)
           = Some (format_note u (ns ! i) fmt)" if "i < length ns" for i
      using fold_upd_distinct [OF dk that, of "\<lambda>n. format_note u n fmt" "files fs"] that by simp
    ultimately show ?thesis using dk by blast
  qed
  then show ?thesis
    unfolding paths files by simp
qed

text \<open>
  Claim C8, as amended.  The path of every exported note is the output directory, then the
  slug of the effective folder, then the file name made of the slug of the title, a hyphen,
  the time stamp of the call, a dot and the format string itself as the extension
  (\<open>markdown\<close>, \<open>html\<close> or \<open>text\<close>).  The time stamp is the same in all paths of one call.
\<close>

theorem export_notes_path_layout:
  "\<forall>i<length ns.
     fst (export_notes u ts ns out fmt ov fs) ! i =
       out @ [slugify (effective_folder ov (ns ! i)),
              slugify (title (ns ! i)) @ ''-'' @ ts @ ''.'' @ fmt]"
  by (simp add: export_notes_paths [of u ts ns out fmt ov fs fs] export_one_path)

section \<open>Properties of the renderer and the aggregator\<close>

lemma replace_char_append:
  "replace_char c r (a @ b) = replace_char c r a @ replace_char c r b"
  by (simp add: replace_char_def)

lemma html_escape_append: "html_escape (a @ b) = html_escape a @ html_escape b"
  by (simp add: html_escape_def replace_char_append)

lemma html_escape_single: "html_escape [c] = escape_char c"
  by (simp add: html_escape_def replace_char_def escape_char_def)

lemma html_escape_chars: "html_escape s = concat (map escape_char s)"
proof (induction s)
  case Nil
  show ?case by (simp add: html_escape_def replace_char_def)
next
  case (Cons c s)
  have "html_escape (c # s) = html_escape [c] @ html_escape s"
    using html_escape_append [of "[c]" s] by simp
  with Cons show ?case by (simp add: html_escape_single)
qed

text \<open>
  Claim C9.  With the format \<open>html\<close>, the title, the folder and the creation date are
  written HTML-escaped, character by character (\<open>&\<close> as \<open>&amp;\<close>), into the heading and the
  metadata paragraph, and the body markup follows as it is.
\<close>

theorem format_note_html:
  "format_note u r ''html'' =
     ''<h1>'' @ concat (map escape_char (title r)) @ ''</h1>'' @ [CHR 0x0A] @
     ''<p><strong>Folder:</strong> '' @ concat (map escape_char (folder r)) @ ''<br/>'' @
     ''<strong>Created:</strong> '' @ concat (map escape_char (created r)) @ ''</p>'' @ [CHR 0x0A] @
     body_html r @ [CHR 0x0A]"
  by (simp add: format_note_def html_escape_chars Let_def)

lemma setdefault_append_keyset:
  "fst ` set (setdefault_append k v c) = insert k (fst ` set c)"
  by (induction c) (force split: if_splits simp: image_iff)+

lemma setdefault_append_distinct:
  "distinct (map fst c) \<Longrightarrow> distinct (map fst (setdefault_append k v c))"
  by (induction c) (auto simp: setdefault_append_keyset)

lemma setdefault_append_nonempty:
  "\<forall>p\<in>set c. snd p \<noteq> [] \<Longrightarrow> \<forall>p\<in>set (setdefault_append k v c). snd p \<noteq> []"
  by (induction c) (force split: if_splits)+

lemma setdefault_append_size:
  "(\<Sum>p\<leftarrow>setdefault_append k v c. length (snd p)) = Suc (\<Sum>p\<leftarrow>c. length (snd p))"
  by (induction c) auto

lemma count_loop_inv:
  "distinct (map fst c) \<Longrightarrow> \<forall>p\<in>set c. snd p \<noteq> [] \<Longrightarrow>
   distinct (map fst (count_loop u kf ns c)) \<and>
   (\<forall>p\<in>set (count_loop u kf ns c). snd p \<noteq> []) \<and>
   (\<Sum>p\<leftarrow>count_loop u kf ns c. length (snd p)) = length ns + (\<Sum>p\<leftarrow>c. length (snd p))"
proof (induction ns arbitrary: c)
  case Nil
  then show ?case by simp
next
  case (Cons n ns)
  let ?c = "setdefault_append (name (suggest_folder u n kf)) (confidence (suggest_folder u n kf)) c"
  have "distinct (map fst ?c)" using Cons.prems(1) by (rule setdefault_append_distinct)
  moreover have "\<forall>p\<in>set ?c. snd p \<noteq> []" using Cons.prems(2) by (rule setdefault_append_nonempty)
  ultimately show ?case
    using Cons.IH [of ?c] by (simp add: Let_def setdefault_append_size)
qed

lemma sum_insort_key:
  "(\<Sum>p\<leftarrow>insort_key f x xs. g p) = g x + (\<Sum>p\<leftarrow>xs. (g p :: nat))"
  by (induction xs) auto

lemma sum_sort_key:
  "(\<Sum>p\<leftarrow>sort_key f xs. g p) = (\<Sum>p\<leftarrow>xs. (g p :: nat))"
  by (induction xs) (simp_all add: sum_insort_key)

lemma distinct_keys_sort_key:
  "distinct (map f xs) \<Longrightarrow> distinct (map f (sort_key f xs))"
  by (simp add: distinct_map)

lemma bucket_folder_make: "bucket_folder (make_bucket p) = fst p"
  by (cases p) (simp add: make_bucket_def Let_def)

lemma count_make: "count (make_bucket p) = length (snd p)"
  by (cases p) (simp add: make_bucket_def Let_def)

text \<open>
  Claim C10.  In the result of \<open>assess_suggestions\<close>, \<open>total\<close> is the number of notes, the
  folder names of the buckets are pairwise distinct, every bucket counts at least one note,
  and the counts add up to \<open>total\<close>.
\<close>

theorem assess_suggestions_buckets:
  "total (assess_suggestions u ns) = length ns \<and>
   distinct (map bucket_folder (buckets (assess_suggestions u ns))) \<and>
   (\<forall>b\<in>set (buckets (assess_suggestions u ns)). 1 \<le> count b) \<and>
   sum_list (map count (buckets (assess_suggestions u ns))) = total (assess_suggestions u ns)"
proof -
  let ?kf = "sort (remdups (filter (\<lambda>f. f \<noteq> []) (map folder ns)))"
  let ?c = "count_loop u ?kf ns []"
  have inv: "distinct (map fst ?c) \<and> (\<forall>p\<in>set ?c. snd p \<noteq> []) \<and>
             (\<Sum>p\<leftarrow>?c. length (snd p)) = length ns"
    using count_loop_inv [of "[]" u ?kf ns] by simp
  have b: "buckets (assess_suggestions u ns) = map make_bucket (sort_key fst ?c)"
    by (simp add: assess_suggestions_def Let_def)
  have t: "total (assess_suggestions u ns) = length ns"
    by (simp add: assess_suggestions_def Let_def)
  have m: "map bucket_folder (buckets (assess_suggestions u ns)) = map fst (sort_key fst ?c)"
    unfolding b by (simp add: bucket_folder_make comp_def)
  have d: "distinct (map bucket_folder (buckets (assess_suggestions u ns)))"
    unfolding m using inv distinct_keys_sort_key [of fst ?c] by blast
  have c1: "\<forall>b\<in>set (buckets (assess_suggestions u ns)). 1 \<le> count b"
    using inv by (auto simp: b count_make Suc_le_eq)
  have "sum_list (map count (buckets (assess_suggestions u ns))) =
          (\<Sum>p\<leftarrow>sort_key fst ?c. length (snd p))"
    unfolding b by (simp add: count_make comp_def)
  then have s: "sum_list (map count (buckets (assess_suggestions u ns))) = length ns"
    using inv by (simp add: sum_sort_key)
  from t d c1 s show ?thesis by simp
qed

section \<open>Properties of the normalizer\<close>

lemma rev_dropWhile_rev_prefix:
  "rev (dropWhile P (rev ys)) @ rev (takeWhile P (rev ys)) = ys"
proof -
  have "rev (dropWhile P (rev ys)) @ rev (takeWhile P (rev ys)) =
        rev (takeWhile P (rev ys) @ dropWhile P (rev ys))"
    by (simp only: rev_append)
  also have "\<dots> = ys"
    by (simp only: takeWhile_dropWhile_id rev_rev_ident)
  finally show ?thesis .
qed

lemma strip_decomp:
  "takeWhile isspace s @ strip s @ rev (takeWhile isspace (rev (dropWhile isspace s))) = s"
  unfolding strip_def by (simp only: rev_dropWhile_rev_prefix takeWhile_dropWhile_id)

lemma set_strip: "set (strip s) \<subseteq> set s"
proof -
  have "set (strip s) \<subseteq>
        set (takeWhile isspace s @ strip s @ rev (takeWhile isspace (rev (dropWhile isspace s))))"
    by auto
  then show ?thesis by (simp only: strip_decomp)
qed

lemma strip_idem: "strip (strip s) = strip s"
proof -
  let ?y = "dropWhile isspace s"
  let ?z = "rev (dropWhile isspace (rev ?y))"
  have y: "?z @ rev (takeWhile isspace (rev ?y)) = ?y"
    by (rule rev_dropWhile_rev_prefix)
  have front: "dropWhile isspace ?z = ?z"
  proof (cases "?z = []")
    case True
    show ?thesis by (simp only: True dropWhile.simps)
  next
    case False
    then have "hd (?z @ rev (takeWhile isspace (rev ?y))) = hd ?z" by (rule hd_append2)
    then have h: "hd ?y = hd ?z" by (simp only: y)
    from False y have "?y \<noteq> []" by (metis append_is_Nil_conv)
    then have "\<not> isspace (hd ?y)" by (rule hd_dropWhile)
    with h have "\<not> isspace (hd ?z)" by simp
    then show ?thesis by (simp only: dropWhile_eq_self_iff) simp
  qed
  have "strip ?z = rev (dropWhile isspace (rev (dropWhile isspace ?z)))"
    by (simp only: strip_def)
  also have "\<dots> = rev (dropWhile isspace (rev ?z))" by (simp only: front)
  also have "\<dots> = rev (dropWhile isspace (dropWhile isspace (rev ?y)))"
    by (simp only: rev_rev_ident)
  also have "\<dots> = ?z" by (simp only: dropWhile_idem)
  finally show ?thesis by (simp only: strip_def)
qed

lemma unescape_basic_plain: "CHR ''&'' \<notin> set s \<Longrightarrow> unescape_basic s = s"
  by (induction s) (auto simp: starts_with_def)

lemma find_gt_Some: "find_str ''>'' s = Some i \<Longrightarrow> CHR ''>'' \<in> set s"
  by (induction s arbitrary: i) (auto simp: starts_with_def split: if_splits)

lemma find_gt_None: "find_str ''>'' s = None \<Longrightarrow> CHR ''>'' \<notin> set s"
  by (induction s) (auto simp: starts_with_def split: if_splits)

lemma match_tag_intro:
  assumes "b \<noteq> CHR ''>''" and "CHR ''>'' \<in> set rest"
  shows "match_tag (CHR ''<'' # b # rest) \<noteq> None"
proof -
  from assms(2) have "find_str ''>'' rest \<noteq> None"
    using find_gt_None [of rest] by blast
  then obtain i where "find_str ''>'' rest = Some i" by auto
  with assms(1) show ?thesis by (simp add: match_tag_def)
qed

lemma match_tag_elim:
  assumes "match_tag s \<noteq> None"
  obtains b rest where "s = CHR ''<'' # b # rest" and "b \<noteq> CHR ''>''" and "CHR ''>'' \<in> set rest"
proof (cases s)
  case Nil
  with assms show ?thesis by (simp add: match_tag_def)
next
  case (Cons a t)
  note s = this
  show ?thesis
  proof (cases t)
    case Nil
    with s assms show ?thesis by (simp add: match_tag_def)
  next
    case (Cons b rest)
    with s assms have "a = CHR ''<''" and "b \<noteq> CHR ''>''" and "find_str ''>'' rest \<noteq> None"
      by (auto simp: match_tag_def split: if_splits option.splits)
    then obtain i where "find_str ''>'' rest = Some i" by auto
    then have "CHR ''>'' \<in> set rest" by (rule find_gt_Some)
    with \<open>a = CHR ''<''\<close> \<open>b \<noteq> CHR ''>''\<close> s Cons that show ?thesis by simp
  qed
qed

lemma match_tag_prefix:
  assumes "match_tag (s @ t) = None"
  shows "match_tag s = None"
proof (rule ccontr)
  assume "match_tag s \<noteq> None"
  then obtain b rest where s: "s = CHR ''<'' # b # rest" and b: "b \<noteq> CHR ''>''"
    and gt: "CHR ''>'' \<in> set rest"
    by (rule match_tag_elim)
  from gt have "CHR ''>'' \<in> set (rest @ t)" by simp
  with b have "match_tag (CHR ''<'' # b # (rest @ t)) \<noteq> None" by (rule match_tag_intro)
  with assms s show False by simp
qed

lemma has_tag_suffix: "has_tag t \<Longrightarrow> has_tag (a @ t)"
  by (induction a) simp_all

lemma has_tag_prefix: "has_tag s \<Longrightarrow> has_tag (s @ t)"
proof (induction s)
  case Nil
  then show ?case by simp
next
  case (Cons c cs)
  show ?case
  proof (cases "match_tag (c # cs) = None")
    case True
    with Cons.prems have "has_tag cs" by simp
    then have "has_tag (cs @ t)" by (rule Cons.IH)
    then show ?thesis by simp
  next
    case False
    with match_tag_prefix [of "c # cs" t] have "match_tag ((c # cs) @ t) \<noteq> None" by blast
    then show ?thesis by simp
  qed
qed

lemma has_tag_strip:
  assumes "has_tag (strip s)"
  shows "has_tag s"
proof -
  from assms have "has_tag (strip s @ rev (takeWhile isspace (rev (dropWhile isspace s))))"
    by (rule has_tag_prefix)
  then have "has_tag (takeWhile isspace s @ strip s @
               rev (takeWhile isspace (rev (dropWhile isspace s))))"
    by (rule has_tag_suffix)
  then show ?thesis by (simp only: strip_decomp)
qed

lemma starts_withD: "starts_with p s \<Longrightarrow> s = p @ drop (length p) s"
  unfolding starts_with_def by (metis append_take_drop_id)

lemma match_block_tag:
  assumes "match_tag s = None" and "b \<noteq> CHR ''>''"
  shows "match_block (CHR ''<'' # b # w) closing s = None"
proof (rule ccontr)
  assume m: "match_block (CHR ''<'' # b # w) closing s \<noteq> None"
  then have sw: "starts_with (CHR ''<'' # b # w) s"
    by (simp add: match_block_def split: if_splits)
  from m sw have "find_str ''>'' (drop (length (CHR ''<'' # b # w)) s) \<noteq> None"
    by (auto simp: match_block_def split: option.splits)
  then obtain i where "find_str ''>'' (drop (length (CHR ''<'' # b # w)) s) = Some i" by auto
  then have gt: "CHR ''>'' \<in> set (drop (length (CHR ''<'' # b # w)) s)" by (rule find_gt_Some)
  from sw have s: "s = (CHR ''<'' # b # w) @ drop (length (CHR ''<'' # b # w)) s"
    by (rule starts_withD)
  from gt have "CHR ''>'' \<in> set (w @ drop (length (CHR ''<'' # b # w)) s)" by simp
  with assms(2) have "match_tag (CHR ''<'' # b # (w @ drop (length (CHR ''<'' # b # w)) s)) \<noteq> None"
    by (rule match_tag_intro)
  then have "match_tag ((CHR ''<'' # b # w) @ drop (length (CHR ''<'' # b # w)) s) \<noteq> None"
    by simp
  with s assms(1) show False by metis
qed

lemma match_style_tag: "match_tag s = None \<Longrightarrow> match_style s = None"
  unfolding match_style_def by (rule match_block_tag) simp_all

lemma match_script_tag: "match_tag s = None \<Longrightarrow> match_script s = None"
  unfolding match_script_def by (rule match_block_tag) simp_all

lemma match_p_close_tag:
  assumes "match_tag s = None"
  shows "match_p_close s = None"
proof (rule ccontr)
  assume "match_p_close s \<noteq> None"
  then have "starts_with ''</p>'' s \<or> starts_with ''</P>'' s"
    by (simp add: match_p_close_def split: if_splits)
  then obtain c t where s: "s = CHR ''<'' # CHR ''/'' # c # CHR ''>'' # t"
    by (auto dest!: starts_withD)
  have "match_tag (CHR ''<'' # CHR ''/'' # (c # CHR ''>'' # t)) \<noteq> None"
    by (rule match_tag_intro) simp_all
  with s assms show False by simp
qed

lemma br_tail_gt:
  "(case xs of
      d # e # _ \<Rightarrow>
        if d = CHR ''>'' then Some (p::nat)
        else if d = CHR ''/'' \<and> e = CHR ''>'' then Some q
        else None
    | [d] \<Rightarrow> if d = CHR ''>'' then Some p else None
    | [] \<Rightarrow> None) \<noteq> None \<Longrightarrow> CHR ''>'' \<in> set xs"
  by (auto split: list.splits if_splits)

lemma match_br_tag:
  assumes "match_tag s = None"
  shows "match_br s = None"
proof (rule ccontr)
  assume m: "match_br s \<noteq> None"
  then obtain a b c rest where s: "s = a # b # c # rest"
    by (auto simp: match_br_def split: list.splits)
  from m s have a: "a = CHR ''<''" and b: "b = CHR ''b'' \<or> b = CHR ''B''"
    by (auto simp: match_br_def split: if_splits)
  from m s have
    "(case dropWhile isspace rest of
        d # e # _ \<Rightarrow>
          if d = CHR ''>'' then Some (3 + length (takeWhile isspace rest) + 1)
          else if d = CHR ''/'' \<and> e = CHR ''>''
               then Some (3 + length (takeWhile isspace rest) + 2)
          else None
      | [d] \<Rightarrow> if d = CHR ''>'' then Some (3 + length (takeWhile isspace rest) + 1) else None
      | [] \<Rightarrow> None) \<noteq> None"
    unfolding match_br_def Let_def by (simp split: if_splits del: dropWhile_eq_Nil_conv)
  then have "CHR ''>'' \<in> set (dropWhile isspace rest)" by (rule br_tail_gt)
  then have "CHR ''>'' \<in> set rest" by (rule set_dropWhileD)
  then have "CHR ''>'' \<in> set (c # rest)" by simp
  moreover from b have "b \<noteq> CHR ''>''" by auto
  ultimately have "match_tag (CHR ''<'' # b # (c # rest)) \<noteq> None"
    by (intro match_tag_intro)
  with s a assms show False by simp
qed

lemma re_sub_no_match:
  assumes "\<And>t. match_tag t = None \<Longrightarrow> m t = None"
  shows "\<not> has_tag s \<Longrightarrow> re_sub m r s = s"
proof (induction s)
  case Nil
  show ?case by simp
next
  case (Cons c cs)
  from Cons.prems have mt: "match_tag (c # cs) = None" and nt: "\<not> has_tag cs" by simp_all
  from mt have "m (c # cs) = None" by (rule assms)
  with Cons.IH [OF nt] show ?case by simp
qed

lemma strip_html_plain:
  assumes "\<not> has_tag x" and "CHR ''&'' \<notin> set x" and "\<And>s. CHR ''&'' \<notin> set s \<Longrightarrow> u s = s"
  shows "strip_html u x = strip x"
proof -
  have 1: "re_sub match_style [] x = x"
    using match_style_tag assms(1) by (rule re_sub_no_match)
  have 2: "re_sub match_script [] x = x"
    using match_script_tag assms(1) by (rule re_sub_no_match)
  have 3: "re_sub match_br [CHR 0x0A] x = x"
    using match_br_tag assms(1) by (rule re_sub_no_match)
  have 4: "re_sub match_p_close [CHR 0x0A, CHR 0x0A] x = x"
    using match_p_close_tag assms(1) by (rule re_sub_no_match)
  have 5: "re_sub match_tag [] x = x"
    using assms(1) by (rule re_sub_no_match [rotated]) simp
  show ?thesis
    unfolding strip_html_def Let_def 1 2 3 4 5 using assms(2,3) by simp
qed

text \<open>
  Claim C5, as amended.  For every string that contains no markup tag and no ampersand (so no
  character reference), \<open>strip_html\<close> is idempotent on its own output.  The decoder is any
  function that returns a string without an ampersand as it is, as \<open>html.unescape\<close> does.
\<close>

theorem strip_html_idempotent_plain:
  assumes "\<not> has_tag x" and "CHR ''&'' \<notin> set x"
      and "\<forall>s. CHR ''&'' \<notin> set s \<longrightarrow> unescape s = s"
  shows "strip_html unescape (strip_html unescape x) = strip_html unescape x"
proof -
  have u: "\<And>s. CHR ''&'' \<notin> set s \<Longrightarrow> unescape s = s" using assms(3) by simp
  have 1: "strip_html unescape x = strip x" using assms(1,2) u by (rule strip_html_plain)
  have "\<not> has_tag (strip x)" using assms(1) has_tag_strip by blast
  moreover have "CHR ''&'' \<notin> set (strip x)" using assms(2) set_strip by blast
  ultimately have "strip_html unescape (strip x) = strip (strip x)"
    using u by (rule strip_html_plain)
  then show ?thesis by (simp only: 1 strip_idem)
qed

text \<open>
  A style or script block in lower case at the head of the text (the opening tag with
  attributes free of \<open>>\<close>, the content up to the first closing tag) is removed as a whole.
\<close>

lemma find_gt_first:
  "CHR ''>'' \<notin> set a \<Longrightarrow> find_str ''>'' (a @ CHR ''>'' # rest) = Some (length a)"
  by (induction a) (auto simp: starts_with_def)

lemma re_sub_match_prefix:
  assumes "m (pre @ post) = Some (length pre)" and "pre \<noteq> []"
  shows "re_sub m r (pre @ post) = r @ re_sub m r post"
proof (cases pre)
  case Nil
  with assms(2) show ?thesis by simp
next
  case (Cons c cs)
  with assms(1) have "m (c # cs @ post) = Some (Suc (length cs))" by simp
  then show ?thesis using Cons by simp
qed

lemma match_block_whole:
  assumes "CHR ''>'' \<notin> set attrs"
      and "find_str closing (inner @ closing @ post) = Some (length inner)"
  shows "match_block opening closing ((opening @ attrs @ ''>'' @ inner @ closing) @ post) =
           Some (length (opening @ attrs @ ''>'' @ inner @ closing))"
  using assms by (simp add: match_block_def starts_with_def find_gt_first)

lemma re_sub_style_block:
  assumes "CHR ''>'' \<notin> set attrs"
      and "find_str ''</style>'' (inner @ ''</style>'' @ post) = Some (length inner)"
  shows "re_sub match_style [] ((''<style'' @ attrs @ ''>'' @ inner @ ''</style>'') @ post) =
           re_sub match_style [] post"
proof -
  have "match_style ((''<style'' @ attrs @ ''>'' @ inner @ ''</style>'') @ post) =
          Some (length (''<style'' @ attrs @ ''>'' @ inner @ ''</style>''))"
    unfolding match_style_def using assms by (rule match_block_whole)
  then have "re_sub match_style [] ((''<style'' @ attrs @ ''>'' @ inner @ ''</style>'') @ post) =
          [] @ re_sub match_style [] post"
    by (rule re_sub_match_prefix) simp
  then show ?thesis by simp
qed

lemma re_sub_script_block:
  assumes "CHR ''>'' \<notin> set attrs"
      and "find_str ''</script>'' (inner @ ''</script>'' @ post) = Some (length inner)"
  shows "re_sub match_script [] ((''<script'' @ attrs @ ''>'' @ inner @ ''</script>'') @ post) =
           re_sub match_script [] post"
proof -
  have "match_script ((''<script'' @ attrs @ ''>'' @ inner @ ''</script>'') @ post) =
          Some (length (''<script'' @ attrs @ ''>'' @ inner @ ''</script>''))"
    unfolding match_script_def using assms by (rule match_block_whole)
  then have "re_sub match_script [] ((''<script'' @ attrs @ ''>'' @ inner @ ''</script>'') @ post) =
          [] @ re_sub match_script [] post"
    by (rule re_sub_match_prefix) simp
  then show ?thesis by simp
qed

section \<open>Evaluation on concrete notes\<close>

text \<open>
  Claim C6.  \<open>strip_html\<close> removes a style block written in lower case with its content,
  but the patterns for style and script blocks are case sensitive: of a block written in
  upper case only the tags are removed, and its content stays in the output.
\<close>

theorem strip_html_uppercase_style:
  "strip_html unescape_basic ''<STYLE>p{color:red}</STYLE>Hello'' = ''p{color:red}Hello'' \<and>
   strip_html unescape_basic ''<style>p{color:red}</style>Hello'' = ''Hello''"
  by code_simp

theorem strip_html_not_idempotent:
  "\<not> has_tag ''&amp;amp;'' \<and>
   strip_html unescape_basic ''&amp;amp;'' = ''&amp;'' \<and>
   strip_html unescape_basic (strip_html unescape_basic ''&amp;amp;'') = ''&'' \<and>
   strip_html unescape_basic (strip_html unescape_basic ''&amp;amp;'') \<noteq>
   strip_html unescape_basic ''&amp;amp;''"
  by code_simp

theorem strip_html_idempotent_plain_witness:
  "\<not> has_tag ''  2 < 3 and so on  '' \<and> CHR ''&'' \<notin> set ''  2 < 3 and so on  '' \<and>
   strip_html unescape_basic (strip_html unescape_basic ''  2 < 3 and so on  '') =
   strip_html unescape_basic ''  2 < 3 and so on  '' \<and>
   strip_html unescape_basic ''  2 < 3 and so on  '' = ''2 < 3 and so on''"
proof -
  have h1: "\<not> has_tag ''  2 < 3 and so on  ''" by code_simp
  have h2: "CHR ''&'' \<notin> set ''  2 < 3 and so on  ''" by code_simp
  have h3: "\<forall>s. CHR ''&'' \<notin> set s \<longrightarrow> unescape_basic s = s"
    by (simp add: unescape_basic_plain)
  have e: "strip_html unescape_basic ''  2 < 3 and so on  '' = ''2 < 3 and so on''"
    by code_simp
  from h1 h2 e strip_html_idempotent_plain [OF h1 h2 h3] show ?thesis by (intro conjI)
qed

theorem suggest_folder_positive_score_witness:
  "list_all (\<lambda>(f, k). hits k (note_tokens unescape_basic sample_note_1) \<le> 5) keyword_map \<and>
   find (\<lambda>(f, k). hits k (note_tokens unescape_basic sample_note_1) = 5) keyword_map =
     Some (''Work'', [''meeting'', ''client'', ''project'', ''deadline'', ''invoice'',
                      ''deliverable'', ''followup'']) \<and>
   (0::nat) < 5 \<and>
   suggest_folder unescape_basic sample_note_1 [''Inbox'', ''Personal''] =
     \<lparr>name = ''Work'', confidence = 1,
      reason = ''Matched 5 keyword(s) for Work; original folder was Inbox''\<rparr>"
proof -
  have a1: "list_all (\<lambda>(f, k). hits k (note_tokens unescape_basic sample_note_1) \<le> 5) keyword_map"
    by code_simp
  then have h1: "\<forall>(f, k)\<in>set keyword_map. hits k (note_tokens unescape_basic sample_note_1) \<le> 5"
    by (simp add: list_all_iff)
  have h2: "find (\<lambda>(f, k). hits k (note_tokens unescape_basic sample_note_1) = 5) keyword_map =
     Some (''Work'', [''meeting'', ''client'', ''project'', ''deadline'', ''invoice'',
                      ''deliverable'', ''followup''])"
    by code_simp
  have h3: "(0::nat) < 5" by simp
  have e1: "min 1 (real 5 / max 3 (real (length (note_tokens unescape_basic sample_note_1)) / 4)) = 1"
    by code_simp
  have e2: "str_nat 5 = ''5''" by code_simp
  have e3: "folder sample_note_1 = ''Inbox''" by (simp add: sample_note_1_def)
  have r: "suggest_folder unescape_basic sample_note_1 [''Inbox'', ''Personal''] =
     \<lparr>name = ''Work'', confidence = 1,
      reason = ''Matched 5 keyword(s) for Work; original folder was Inbox''\<rparr>"
    using suggest_folder_positive_score [OF h1 h2 h3, of "[''Inbox'', ''Personal'']"]
    unfolding e1 e2 e3 by simp
  from a1 h2 h3 r show ?thesis by (intro conjI)
qed

theorem suggest_folder_zero_score_witness:
  "note_tokens unescape_basic plain_note \<noteq> [] \<and>
   list_all (\<lambda>(f, k). hits k (note_tokens unescape_basic plain_note) = 0) keyword_map \<and>
   suggest_folder unescape_basic plain_note [''Inbox''] =
     \<lparr>name = ''Inbox'', confidence = 35 / 100,
      reason = ''No strong keyword match; keeping original folder''\<rparr>"
proof -
  have h1: "note_tokens unescape_basic plain_note \<noteq> []" by code_simp
  have a2: "list_all (\<lambda>(f, k). hits k (note_tokens unescape_basic plain_note) = 0) keyword_map"
    by code_simp
  then have h2: "\<forall>(f, k)\<in>set keyword_map. hits k (note_tokens unescape_basic plain_note) = 0"
    by (simp add: list_all_iff)
  have e: "folder plain_note = ''Inbox''" by (simp add: plain_note_def)
  have r: "suggest_folder unescape_basic plain_note [''Inbox''] =
     \<lparr>name = ''Inbox'', confidence = 35 / 100,
      reason = ''No strong keyword match; keeping original folder''\<rparr>"
    using suggest_folder_zero_score [OF h1 h2, of "[''Inbox'']"] unfolding e by simp
  from h1 a2 r show ?thesis by (intro conjI)
qed

theorem suggest_folder_empty_note_witness:
  "note_tokens unescape_basic blank_note = [] \<and>
   suggest_folder unescape_basic blank_note [''Inbox''] =
     \<lparr>name = ''Uncategorized'', confidence = 2 / 10, reason = ''Empty note''\<rparr>"
proof -
  have h: "note_tokens unescape_basic blank_note = []" by code_simp
  have e: "folder blank_note = []" by (simp add: blank_note_def)
  have r: "suggest_folder unescape_basic blank_note [''Inbox''] =
     \<lparr>name = ''Uncategorized'', confidence = 2 / 10, reason = ''Empty note''\<rparr>"
    using suggest_folder_empty_note [OF h, of "[''Inbox'']"] unfolding e by simp
  from h r show ?thesis by (intro conjI)
qed

theorem suggest_folder_confidence_range_witness:
  "0 \<le> confidence (suggest_folder unescape_basic sample_note_2 [''Personal'']) \<and>
   confidence (suggest_folder unescape_basic sample_note_2 [''Personal'']) \<le> 1"
  by (rule suggest_folder_confidence_range)

theorem export_notes_collision:
  "distinct (map (export_key None) collide_notes) \<and>
   fst (export_notes unescape_basic ''20240101-000000'' collide_notes [''out''] ''html'' None empty_fs) =
     [[''out'', ''a'', ''hello-20240101-000000.html''],
      [''out'', ''a'', ''hello-20240101-000000.html'']] \<and>
   \<not> distinct (fst (export_notes unescape_basic ''20240101-000000'' collide_notes [''out'']
                    ''html'' None empty_fs))"
  by code_simp

theorem export_notes_markdown_extension:
  "fst (export_notes unescape_basic ''20240101-000000'' [sample_note_1] [''out''] ''markdown''
         None empty_fs) =
     [[''out'', ''inbox'', ''client-meeting-follow-up-20240101-000000.markdown'']] \<and>
   file_extension (last (hd (fst (export_notes unescape_basic ''20240101-000000'' [sample_note_1]
         [''out''] ''markdown'' None empty_fs)))) = ''markdown'' \<and>
   ''markdown'' \<noteq> ''md''"
  by code_simp

theorem export_notes_one_path_per_note_witness:
  "distinct (map (slug_key None) [sample_note_1, sample_note_2]) \<and>
   length (fst (export_notes unescape_basic ''20240101-000000'' [sample_note_1, sample_note_2]
                  [''out''] ''html'' None empty_fs)) = 2 \<and>
   distinct (fst (export_notes unescape_basic ''20240101-000000'' [sample_note_1, sample_note_2]
                  [''out''] ''html'' None empty_fs)) \<and>
   card (set (fst (export_notes unescape_basic ''20240101-000000'' [sample_note_1, sample_note_2]
                  [''out''] ''html'' None empty_fs))) = 2 \<and>
   files (snd (export_notes unescape_basic ''20240101-000000'' [sample_note_1, sample_note_2]
                  [''out''] ''html'' None empty_fs))
     (fst (export_notes unescape_basic ''20240101-000000'' [sample_note_1, sample_note_2]
                  [''out''] ''html'' None empty_fs) ! 1) =
     Some (format_note unescape_basic sample_note_2 ''html'')"
proof -
  let ?ns = "[sample_note_1, sample_note_2]"
  let ?E = "export_notes unescape_basic ''20240101-000000'' ?ns [''out''] ''html'' None empty_fs"
  have d: "distinct (map (slug_key None) ?ns)" by code_simp
  note T = export_notes_one_path_per_note
    [of unescape_basic "''20240101-000000''" ?ns "[''out'']" "''html''" None empty_fs]
  from T have l: "length (fst ?E) = length ?ns" by blast
  from T d have dd: "distinct (fst ?E)" by blast
  from T d have c: "card (set (fst ?E)) = length ?ns" by blast
  from T d have f: "\<forall>i<length ?ns. files (snd ?E) (fst ?E ! i) =
      Some (format_note unescape_basic (?ns ! i) ''html'')" by blast
  have "(1::nat) < length ?ns" by simp
  with f have f1: "files (snd ?E) (fst ?E ! 1) = Some (format_note unescape_basic (?ns ! 1) ''html'')"
    by blast
  from d l dd c f1 show ?thesis by simp
qed

theorem export_notes_path_layout_witness:
  "fst (export_notes unescape_basic ''20240101-000000'' [sample_note_1] [''out''] ''text''
          None empty_fs) ! 0 =
     [''out'', ''inbox'', ''client-meeting-follow-up-20240101-000000.text'']"
proof -
  have e: "[''out''] @ [slugify (effective_folder None sample_note_1),
             slugify (title sample_note_1) @ ''-'' @ ''20240101-000000'' @ ''.'' @ ''text''] =
           [''out'', ''inbox'', ''client-meeting-follow-up-20240101-000000.text'']"
    by code_simp
  have "(0::nat) < length [sample_note_1]" by simp
  with export_notes_path_layout
    [of "[sample_note_1]" unescape_basic "''20240101-000000''" "[''out'']" "''text''" None empty_fs]
  have "fst (export_notes unescape_basic ''20240101-000000'' [sample_note_1] [''out''] ''text''
          None empty_fs) ! 0 =
     [''out''] @ [slugify (effective_folder None ([sample_note_1] ! 0)),
             slugify (title ([sample_note_1] ! 0)) @ ''-'' @ ''20240101-000000'' @ ''.'' @ ''text'']"
    by blast
  then show ?thesis using e by simp
qed

theorem format_note_html_witness:
  "format_note unescape_basic amp_note ''html'' =
     ''<h1>R&amp;D &lt;1&gt;</h1>'' @ [CHR 0x0A] @
     ''<p><strong>Folder:</strong> Inbox<br/><strong>Created:</strong> 2024-11-03</p>'' @
     [CHR 0x0A] @ ''<p>a &amp; b</p>'' @ [CHR 0x0A]"
proof -
  have e: "''<h1>'' @ concat (map escape_char (title amp_note)) @ ''</h1>'' @ [CHR 0x0A] @
     ''<p><strong>Folder:</strong> '' @ concat (map escape_char (folder amp_note)) @ ''<br/>'' @
     ''<strong>Created:</strong> '' @ concat (map escape_char (created amp_note)) @ ''</p>'' @ [CHR 0x0A] @
     body_html amp_note @ [CHR 0x0A] =
     ''<h1>R&amp;D &lt;1&gt;</h1>'' @ [CHR 0x0A] @
     ''<p><strong>Folder:</strong> Inbox<br/><strong>Created:</strong> 2024-11-03</p>'' @
     [CHR 0x0A] @ ''<p>a &amp; b</p>'' @ [CHR 0x0A]"
    by code_simp
  show ?thesis
    unfolding format_note_html [of unescape_basic amp_note] by (rule e)
qed

theorem assess_suggestions_buckets_witness:
  "map bucket_folder (buckets (assess_suggestions unescape_basic [sample_note_1, sample_note_2])) =
     [''Personal'', ''Work''] \<and>
   total (assess_suggestions unescape_basic [sample_note_1, sample_note_2]) = 2 \<and>
   distinct (map bucket_folder (buckets (assess_suggestions unescape_basic [sample_note_1, sample_note_2]))) \<and>
   list_all (\<lambda>b. 1 \<le> count b) (buckets (assess_suggestions unescape_basic [sample_note_1, sample_note_2])) \<and>
   sum_list (map count (buckets (assess_suggestions unescape_basic [sample_note_1, sample_note_2]))) = 2"
proof -
  let ?A = "assess_suggestions unescape_basic [sample_note_1, sample_note_2]"
  have e: "map bucket_folder (buckets ?A) = [''Personal'', ''Work'']" by code_simp
  note T = assess_suggestions_buckets [of unescape_basic "[sample_note_1, sample_note_2]"]
  from T have t: "total ?A = 2" by simp
  from T have d: "distinct (map bucket_folder (buckets ?A))" by blast
  from T have "\<forall>b\<in>set (buckets ?A). 1 \<le> count b" by blast
  then have c: "list_all (\<lambda>b. 1 \<le> count b) (buckets ?A)" by (simp add: list_all_iff)
  from T t have s: "sum_list (map count (buckets ?A)) = 2" by simp
  from e t d c s show ?thesis by (intro conjI)
qed

end
